theory Spec2Isabelle
  imports Main
begin

section \<open>JavaScript values\<close>

text \<open>
  The values a caller can pass as a listener. Functions and objects are references
  (a \<open>nat\<close> names the object), so HOL equality on \<open>Function f\<close> is reference
  identity. Numbers are integers plus \<open>NaN\<close>, the one value that is not strictly
  equal to itself.
\<close>

datatype jsval =
    Undefined
  | Null
  | Bool bool
  | Num int
  | NaN
  | Str string
  | Obj nat
  | Function nat

fun typeof :: "jsval \<Rightarrow> string" where
  "typeof Undefined = ''undefined''"
| "typeof Null = ''object''"
| "typeof (Bool b) = ''boolean''"
| "typeof (Num n) = ''number''"
| "typeof NaN = ''number''"
| "typeof (Str x) = ''string''"
| "typeof (Obj r) = ''object''"
| "typeof (Function f) = ''function''"

text \<open>What can be thrown: a \<open>TypeError\<close> with its message, or a value a listener throws.\<close>

datatype error = TypeError string | Thrown jsval

text \<open>
  How a method call completes: \<open>return this\<close>, \<open>return true/false\<close>, or a throw
  that reaches the caller.
\<close>

datatype retval = This | Flag bool

datatype completion = Return retval | Throw error

section \<open>The emitter and its store\<close>

text \<open>
  \<open>#events\<close> is a \<open>Map\<close> from event name to an array object. Arrays are mutated in
  place (\<open>push\<close>, \<open>splice\<close>) and \<open>emit\<close> no_unregister a reference to one while listeners
  run, so the map holds references and the arrays live in a store. \<open>console\<close> is what
  \<open>console.error\<close> has received, \<open>calls\<close> the listener invocations made so far
  (function and arguments), both oldest first.
\<close>

record state =
  events :: "string \<rightharpoonup> nat"
  arrays :: "nat \<Rightarrow> jsval list"
  next_ref :: nat
  console :: "(string \<times> error) list"
  calls :: "(nat \<times> jsval list) list"

definition new_EventEmitter :: state where
  "new_EventEmitter =
     \<lparr>events = Map.empty, arrays = (\<lambda>_. []), next_ref = 0, console = [], calls = []\<rparr>"

text \<open>The listener sequence of an event, as the mapping of the specification sees it.\<close>

definition listeners_of :: "state \<Rightarrow> string \<Rightarrow> jsval list option" where
  "listeners_of s event = map_option (arrays s) (events s event)"

subsection \<open>Array operations\<close>

text \<open>The array literal \<open>[]\<close>: a fresh, empty array object.\<close>

definition new_array :: "state \<Rightarrow> nat \<times> state" where
  "new_array s =
     (next_ref s, s\<lparr>arrays := (arrays s)(next_ref s := []), next_ref := Suc (next_ref s)\<rparr>)"

text \<open>\<open>Array.prototype.includes\<close> compares with SameValueZero (\<open>NaN\<close> equals itself).\<close>

definition array_includes :: "jsval list \<Rightarrow> jsval \<Rightarrow> bool" where
  "array_includes xs v = (v \<in> set xs)"

text \<open>\<open>===\<close>, which \<open>indexOf\<close> uses.\<close>

definition strict_equals :: "jsval \<Rightarrow> jsval \<Rightarrow> bool" where
  "strict_equals a b = (a \<noteq> NaN \<and> a = b)"

text \<open>\<open>Array.prototype.indexOf\<close>: the first matching index; \<open>None\<close> is \<open>-1\<close>.\<close>

fun indexOf :: "jsval list \<Rightarrow> jsval \<Rightarrow> nat option" where
  "indexOf [] v = None"
| "indexOf (x # xs) v =
     (if strict_equals x v then Some 0 else map_option Suc (indexOf xs v))"

definition push :: "state \<Rightarrow> nat \<Rightarrow> jsval \<Rightarrow> state" where
  "push s a v = s\<lparr>arrays := (arrays s)(a := arrays s a @ [v])\<rparr>"

text \<open>\<open>splice(index, 1)\<close> on the array \<open>a\<close>.\<close>

definition splice1 :: "state \<Rightarrow> nat \<Rightarrow> nat \<Rightarrow> state" where
  "splice1 s a index =
     s\<lparr>arrays := (arrays s)(a := take index (arrays s a) @ drop (Suc index) (arrays s a))\<rparr>"

text \<open>\<open>xs[i]\<close>: reading past the end gives \<open>undefined\<close>.\<close>

definition element :: "jsval list \<Rightarrow> nat \<Rightarrow> jsval" where
  "element xs i = (if i < length xs then xs ! i else Undefined)"

section \<open>on, off, removeAllListeners\<close>

definition on :: "state \<Rightarrow> string \<Rightarrow> jsval \<Rightarrow> completion \<times> state" where
  "on s event listener =
     (if typeof listener \<noteq> ''function''
      then (Throw (TypeError ''Listener must be a function''), s)
      else
        let (listeners, s1) =
              (case events s event of Some a \<Rightarrow> (a, s) | None \<Rightarrow> new_array s);
            s2 = (if \<not> array_includes (arrays s1 listeners) listener
                  then push s1 listeners listener else s1)
        in (Return This, s2\<lparr>events := (events s2)(event \<mapsto> listeners)\<rparr>))"

definition off :: "state \<Rightarrow> string \<Rightarrow> jsval \<Rightarrow> completion \<times> state" where
  "off s event listener =
     (case events s event of
        None \<Rightarrow> (Return This, s)
      | Some listeners \<Rightarrow>
          (case indexOf (arrays s listeners) listener of
             None \<Rightarrow> (Return This, s)
           | Some index \<Rightarrow>
               let s1 = splice1 s listeners index
               in if length (arrays s1 listeners) = 0
                  then (Return This, s1\<lparr>events := (events s1)(event := None)\<rparr>)
                  else (Return This, s1\<lparr>events := (events s1)(event \<mapsto> listeners)\<rparr>)))"

text \<open>
  The optional parameter is \<open>None\<close> when the argument is omitted (\<open>undefined\<close>).
  The test \<open>if (event)\<close> is JavaScript truthiness: \<open>undefined\<close> and the empty string
  are falsy, every other string is truthy.
\<close>

fun truthy :: "string option \<Rightarrow> bool" where
  "truthy None = False"
| "truthy (Some event) = (event \<noteq> [])"

text \<open>\<open>Map.prototype.delete\<close>; \<open>undefined\<close> is never a key of this map.\<close>

fun map_delete :: "(string \<rightharpoonup> nat) \<Rightarrow> string option \<Rightarrow> (string \<rightharpoonup> nat)" where
  "map_delete m None = m"
| "map_delete m (Some event) = m(event := None)"

definition removeAllListeners :: "state \<Rightarrow> string option \<Rightarrow> completion \<times> state" where
  "removeAllListeners s event =
     (if truthy event
      then (Return This, s\<lparr>events := map_delete (events s) event\<rparr>)
      else (Return This, s\<lparr>events := Map.empty\<rparr>))"

section \<open>Listeners\<close>

text \<open>
  A listener is caller code, run with \<open>this\<close> bound to the emitter. Its body is
  modelled as a straight-line sequence of calls on \<open>this\<close> (\<open>on\<close>, \<open>off\<close>,
  \<open>removeAllListeners\<close>) and \<open>throw\<close>; which sequence may depend on the function and
  on the arguments it receives. A throw, the caller's or that of \<open>on\<close>, ends the body
  and leaves the emitter as it then is. Listeners that themselves call \<open>emit\<close> or that
  do not return are outside this model.
\<close>

datatype stmt =
    CallOn string jsval
  | CallOff string jsval
  | CallRemoveAllListeners "string option"
  | ThrowStmt jsval

type_synonym program = "nat \<Rightarrow> jsval list \<Rightarrow> stmt list"

fun exec :: "stmt \<Rightarrow> state \<Rightarrow> error option \<times> state" where
  "exec (CallOn event listener) s =
     (case on s event listener of
        (Return r, s') \<Rightarrow> (None, s')
      | (Throw e, s') \<Rightarrow> (Some e, s'))"
| "exec (CallOff event listener) s =
     (case off s event listener of
        (Return r, s') \<Rightarrow> (None, s')
      | (Throw e, s') \<Rightarrow> (Some e, s'))"
| "exec (CallRemoveAllListeners event) s =
     (case removeAllListeners s event of
        (Return r, s') \<Rightarrow> (None, s')
      | (Throw e, s') \<Rightarrow> (Some e, s'))"
| "exec (ThrowStmt v) s = (Some (Thrown v), s)"

fun run_body :: "stmt list \<Rightarrow> state \<Rightarrow> error option \<times> state" where
  "run_body [] s = (None, s)"
| "run_body (st # rest) s =
     (case exec st s of
        (None, s') \<Rightarrow> run_body rest s'
      | (Some e, s') \<Rightarrow> (Some e, s'))"

text \<open>
  \<open>listeners[i].apply(this, args)\<close>: on a function it records the invocation and runs
  the body; on \<open>undefined\<close> (an index past the end of the array) the property read
  throws a \<open>TypeError\<close>, and so does calling the missing \<open>apply\<close> of any other value.
  The functions of this model are ordinary ones, whose \<open>apply\<close> is
  \<open>Function.prototype.apply\<close>; a function that carries an \<open>apply\<close> property of its
  own, which the source would call in its place, is outside the model.
\<close>

fun apply_listener :: "program \<Rightarrow> jsval \<Rightarrow> jsval list \<Rightarrow> state \<Rightarrow> error option \<times> state" where
  "apply_listener prog (Function f) args s =
     run_body (prog f args) (s\<lparr>calls := calls s @ [(f, args)]\<rparr>)"
| "apply_listener prog Undefined args s =
     (Some (TypeError ''Cannot read properties of undefined''), s)"
| "apply_listener prog Null args s =
     (Some (TypeError ''Cannot read properties of null''), s)"
| "apply_listener prog v args s =
     (Some (TypeError ''listeners[i].apply is not a function''), s)"

section \<open>emit\<close>

definition console_error :: "string \<Rightarrow> error \<Rightarrow> state \<Rightarrow> state" where
  "console_error event e s = s\<lparr>console := console s @ [(event, e)]\<rparr>"

text \<open>The body of the loop: the \<open>try\<close> around one invocation, and its \<open>catch\<close>.\<close>

definition try_listener :: "program \<Rightarrow> string \<Rightarrow> jsval list \<Rightarrow> jsval \<Rightarrow> state \<Rightarrow> state" where
  "try_listener prog event args v s =
     (case apply_listener prog v args s of
        (None, s') \<Rightarrow> s'
      | (Some e, s') \<Rightarrow> console_error event e s')"

text \<open>
  \<open>for (let i = 0, n = listeners.length; i < n; ++i)\<close>: \<open>listeners\<close> is the reference
  read before the loop, \<open>n\<close> the length read once, and \<open>listeners[i]\<close> reads the array
  as it is when the iteration starts.
\<close>

function emit_loop ::
  "program \<Rightarrow> string \<Rightarrow> jsval list \<Rightarrow> nat \<Rightarrow> nat \<Rightarrow> nat \<Rightarrow> state \<Rightarrow> state" where
  "emit_loop prog event args listeners i n s =
     (if i < n
      then emit_loop prog event args listeners (Suc i) n
             (try_listener prog event args (element (arrays s listeners) i) s)
      else s)"
  by pat_completeness auto
termination
  by (relation "measure (\<lambda>(prog, event, args, listeners, i, n, s). n - i)") auto

declare emit_loop.simps [simp del]

definition emit :: "program \<Rightarrow> state \<Rightarrow> string \<Rightarrow> jsval list \<Rightarrow> completion \<times> state" where
  "emit prog s event args =
     (case events s event of
        None \<Rightarrow> (Return (Flag False), s)
      | Some listeners \<Rightarrow>
          if length (arrays s listeners) = 0 then (Return (Flag False), s)
          else (Return (Flag True),
                emit_loop prog event args listeners 0 (length (arrays s listeners)) s))"

section \<open>Sequences of calls on a new emitter\<close>

datatype op =
    Register string jsval
  | Unregister string jsval
  | Dispatch string "jsval list"
  | Clear "string option"

fun apply_op :: "program \<Rightarrow> state \<Rightarrow> op \<Rightarrow> state" where
  "apply_op prog s (Register event listener) = snd (on s event listener)"
| "apply_op prog s (Unregister event listener) = snd (off s event listener)"
| "apply_op prog s (Dispatch event args) = snd (emit prog s event args)"
| "apply_op prog s (Clear event) = snd (removeAllListeners s event)"

definition run :: "program \<Rightarrow> op list \<Rightarrow> state" where
  "run prog ops = foldl (apply_op prog) new_EventEmitter ops"


section \<open>Well-formed states\<close>

text \<open>
  What every state built by the methods satisfies (\<open>wf_run\<close> below): an array in the
  map has been allocated, is not empty, holds functions only and each at most once, and
  belongs to one event only.
\<close>

definition wf :: "state \<Rightarrow> bool" where
  "wf s = (\<forall>e a. events s e = Some a \<longrightarrow>
             a < next_ref s \<and> arrays s a \<noteq> [] \<and> distinct (arrays s a) \<and>
             (\<forall>v \<in> set (arrays s a). typeof v = ''function'') \<and>
             (\<forall>e'. events s e' = Some a \<longrightarrow> e' = e))"

text \<open>The invariant of the data model: no empty sequence under a key, no listener twice.\<close>

definition invariant :: "state \<Rightarrow> bool" where
  "invariant s = (\<forall>event ls. listeners_of s event = Some ls \<longrightarrow> ls \<noteq> [] \<and> distinct ls)"

section \<open>Listeners that leave an event's sequence alone\<close>

text \<open>
  A statement that calls \<open>off\<close> for \<open>event\<close>, and the condition that the body of
  none of the functions \<open>fs\<close>, called with \<open>args\<close>, contains one. The condition is
  on the text of the bodies: it also rules out a call of \<open>off\<close> that would remove
  nobody or that is never reached, so it is sufficient, not necessary, for the sequence
  to keep its listeners during a dispatch. Registering, also for the same event, and
  \<open>removeAllListeners\<close> are allowed.
\<close>

fun unregisters :: "string \<Rightarrow> stmt \<Rightarrow> bool" where
  "unregisters event (CallOn e l) = False"
| "unregisters event (CallOff e l) = (e = event)"
| "unregisters event (CallRemoveAllListeners e) = False"
| "unregisters event (ThrowStmt v) = False"

definition no_unregister :: "program \<Rightarrow> jsval list \<Rightarrow> string \<Rightarrow> nat list \<Rightarrow> bool" where
  "no_unregister prog args event fs =
     (\<forall>f \<in> set fs. \<forall>st \<in> set (prog f args). \<not> unregisters event st)"

text \<open>
  What a body throws, if anything. It is the same in every state (\<open>fst_run_body\<close>
  below): \<open>on\<close> throws by the type of its argument alone, \<open>off\<close> and
  \<open>removeAllListeners\<close> never.
\<close>

definition thrown_by :: "stmt list \<Rightarrow> error option" where
  "thrown_by body = fst (run_body body new_EventEmitter)"

text \<open>The \<open>console.error\<close> entries of one pass over the functions \<open>fs\<close>.\<close>

definition reports :: "program \<Rightarrow> string \<Rightarrow> jsval list \<Rightarrow> nat list \<Rightarrow> (string \<times> error) list" where
  "reports prog event args fs =
     concat (map (\<lambda>f. case thrown_by (prog f args) of None \<Rightarrow> [] | Some e \<Rightarrow> [(event, e)]) fs)"

text \<open>
  The array \<open>a\<close> is allocated and no event other than \<open>event\<close> refers to it. This is
  what \<open>emit\<close> knows of the array it iterates, also after a listener has deleted the key.
\<close>

definition owns :: "state \<Rightarrow> string \<Rightarrow> nat \<Rightarrow> bool" where
  "owns s event a = (a < next_ref s \<and> (\<forall>e. events s e = Some a \<longrightarrow> e = event))"

section \<open>Example listeners\<close>

text \<open>Listeners that do nothing.\<close>

definition silent :: program where
  "silent f args = []"

text \<open>
  Function 0 is a one-shot listener of \<open>x\<close>: when invoked it calls
  \<open>this.off('x', itself)\<close>. Every other function does nothing.
\<close>

definition once_x :: program where
  "once_x f args = (if f = 0 then [CallOff ''x'' (Function 0)] else [])"

text \<open>The same one-shot listener, which then throws.\<close>

definition once_x_throwing :: program where
  "once_x_throwing f args =
     (if f = 0 then [CallOff ''x'' (Function 0), ThrowStmt (Str ''boom'')] else [])"

text \<open>
  Function 0 throws, function 1 registers a new listener of \<open>x\<close>, function 2 calls
  \<open>on\<close> with a number (a \<open>TypeError\<close>), function 3 calls \<open>removeAllListeners('x')\<close>.
  None of them unregisters.
\<close>

definition busy :: program where
  "busy f args =
     (if f = 0 then [ThrowStmt (Str ''boom'')]
      else if f = 1 then [CallOn ''x'' (Function 7)]
      else if f = 2 then [CallOn ''y'' (Num 3)]
      else if f = 3 then [CallRemoveAllListeners (Some ''x'')]
      else [])"

section \<open>Basic facts\<close>

lemma typeof_function_iff: "(typeof v = ''function'') = (\<exists>f. v = Function f)"
  by (cases v) simp_all

lemma on_not_function:
  "typeof listener \<noteq> ''function'' \<Longrightarrow>
   on s event listener = (Throw (TypeError ''Listener must be a function''), s)"
  by (simp add: on_def)

lemma fst_on_function:
  "typeof listener = ''function'' \<Longrightarrow> fst (on s event listener) = Return This"
  by (simp add: on_def Let_def split: option.splits prod.splits)

lemma fst_off: "fst (off s event listener) = Return This"
  by (simp add: off_def Let_def split: option.splits)

lemma fst_removeAllListeners: "fst (removeAllListeners s event) = Return This"
  by (simp add: removeAllListeners_def)

lemma wf_new: "wf new_EventEmitter"
  by (simp add: wf_def new_EventEmitter_def)

lemma wf_invariant: "wf s \<Longrightarrow> invariant s"
  by (auto simp: wf_def invariant_def listeners_of_def)

subsection \<open>indexOf\<close>

lemma indexOf_None: "(indexOf xs v = None) = (\<forall>x \<in> set xs. \<not> strict_equals x v)"
  by (induction xs) auto

lemma indexOf_not_member: "v \<notin> set xs \<Longrightarrow> indexOf xs v = None"
  by (auto simp: indexOf_None strict_equals_def)

lemma indexOf_member:
  "v \<in> set xs \<Longrightarrow> v \<noteq> NaN \<Longrightarrow> \<exists>i. indexOf xs v = Some i"
  by (cases "indexOf xs v") (auto simp: indexOf_None strict_equals_def)

lemma indexOf_Some:
  "indexOf xs v = Some i \<Longrightarrow>
   i < length xs \<and> xs ! i = v \<and> v \<noteq> NaN \<and> (\<forall>j<i. xs ! j \<noteq> v) \<and>
   take i xs @ drop (Suc i) xs = remove1 v xs"
proof (induction xs arbitrary: i)
  case Nil
  then show ?case by simp
next
  case (Cons x xs)
  show ?case
  proof (cases "strict_equals x v")
    case True
    with Cons.prems show ?thesis by (auto simp: strict_equals_def)
  next
    case False
    with Cons.prems obtain k where k: "indexOf xs v = Some k" "i = Suc k" by auto
    from Cons.IH [OF k(1)] have ih:
      "k < length xs" "xs ! k = v" "v \<noteq> NaN" "\<forall>j<k. xs ! j \<noteq> v"
      "take k xs @ drop (Suc k) xs = remove1 v xs" by auto
    from False ih(3) have xv: "x \<noteq> v" by (auto simp: strict_equals_def)
    have "\<forall>j<i. (x # xs) ! j \<noteq> v"
    proof (intro allI impI)
      fix j assume "j < i"
      then show "(x # xs) ! j \<noteq> v" using xv ih(4) k(2) by (cases j) auto
    qed
    then show ?thesis using ih xv k(2) by simp
  qed
qed

subsection \<open>The state after each method\<close>

lemma on_function_state:
  "snd (on s event (Function f)) =
     (case events s event of
        Some a \<Rightarrow>
          (if Function f \<in> set (arrays s a) then s
           else s\<lparr>arrays := (arrays s)(a := arrays s a @ [Function f])\<rparr>)
      | None \<Rightarrow>
          s\<lparr>arrays := (arrays s)(next_ref s := [Function f]),
            next_ref := Suc (next_ref s),
            events := (events s)(event \<mapsto> next_ref s)\<rparr>)"
  by (auto simp: on_def new_array_def push_def array_includes_def Let_def fun_upd_idem
           split: option.splits)

lemma off_state:
  "snd (off s event listener) =
     (case events s event of
        None \<Rightarrow> s
      | Some a \<Rightarrow>
          (case indexOf (arrays s a) listener of
             None \<Rightarrow> s
           | Some i \<Rightarrow>
               (if remove1 listener (arrays s a) = []
                then s\<lparr>arrays := (arrays s)(a := []), events := (events s)(event := None)\<rparr>
                else s\<lparr>arrays := (arrays s)(a := remove1 listener (arrays s a))\<rparr>)))"
  by (auto simp: off_def splice1_def Let_def fun_upd_idem dest!: indexOf_Some
           split: option.splits)

lemma removeAllListeners_state:
  "snd (removeAllListeners s event) =
     (case event of
        None \<Rightarrow> s\<lparr>events := Map.empty\<rparr>
      | Some e \<Rightarrow> if e = [] then s\<lparr>events := Map.empty\<rparr> else s\<lparr>events := (events s)(e := None)\<rparr>)"
  by (simp add: removeAllListeners_def split: option.splits)


subsection \<open>Well-formed states\<close>

lemma wf_on: "wf s \<Longrightarrow> wf (snd (on s event listener))"
proof (cases "typeof listener = ''function''")
  case False
  assume "wf s"
  with False show ?thesis by (simp add: on_not_function)
next
  case True
  assume w: "wf s"
  from True obtain f where f: "listener = Function f" by (auto simp: typeof_function_iff)
  show ?thesis
  proof (cases "events s event")
    case None
    with w show ?thesis
      unfolding f on_function_state wf_def
      by (auto simp: less_Suc_eq)
  next
    case (Some a)
    with w show ?thesis
      unfolding f on_function_state wf_def
      by (auto split: if_splits)
  qed
qed

lemma wf_off: "wf s \<Longrightarrow> wf (snd (off s event listener))"
  unfolding off_state wf_def
  by (auto split: option.splits if_splits dest: notin_set_remove1)

lemma wf_removeAllListeners: "wf s \<Longrightarrow> wf (snd (removeAllListeners s event))"
  unfolding removeAllListeners_state wf_def
  by (auto split: option.splits if_splits)

lemma wf_console_error: "wf (console_error event e s) = wf s"
  by (simp add: wf_def console_error_def)

lemma wf_calls_update: "wf (s\<lparr>calls := c\<rparr>) = wf s"
  by (simp add: wf_def)

lemma snd_exec:
  "snd (exec (CallOn e l) s) = snd (on s e l)"
  "snd (exec (CallOff e l) s) = snd (off s e l)"
  "snd (exec (CallRemoveAllListeners eo) s) = snd (removeAllListeners s eo)"
  "snd (exec (ThrowStmt v) s) = s"
proof -
  show "snd (exec (CallOn e l) s) = snd (on s e l)"
    by (cases "on s e l"; cases "fst (on s e l)") auto
  show "snd (exec (CallOff e l) s) = snd (off s e l)"
    by (cases "off s e l"; cases "fst (off s e l)") auto
  show "snd (exec (CallRemoveAllListeners eo) s) = snd (removeAllListeners s eo)"
    by (cases "removeAllListeners s eo"; cases "fst (removeAllListeners s eo)") auto
  show "snd (exec (ThrowStmt v) s) = s" by simp
qed

lemma wf_exec: "wf s \<Longrightarrow> wf (snd (exec st s))"
  by (cases st) (simp_all only: snd_exec wf_on wf_off wf_removeAllListeners)

lemma wf_run_body: "wf s \<Longrightarrow> wf (snd (run_body body s))"
proof (induction body arbitrary: s)
  case Nil
  then show ?case by simp
next
  case (Cons st rest)
  from Cons.prems have w: "wf (snd (exec st s))" by (rule wf_exec)
  show ?case
  proof (cases "exec st s")
    case (Pair r s')
    with w have "wf s'" by simp
    then show ?thesis using Pair Cons.IH [of s'] by (cases r) simp_all
  qed
qed

lemma wf_apply_listener: "wf s \<Longrightarrow> wf (snd (apply_listener prog v args s))"
  by (cases v) (simp_all add: wf_run_body wf_calls_update)

lemma wf_try_listener: "wf s \<Longrightarrow> wf (try_listener prog event args v s)"
proof -
  assume "wf s"
  then have "wf (snd (apply_listener prog v args s))" by (rule wf_apply_listener)
  then show ?thesis
    by (cases "apply_listener prog v args s")
       (simp add: try_listener_def wf_console_error split: option.splits)
qed

lemma wf_emit_loop: "wf s \<Longrightarrow> wf (emit_loop prog event args a i n s)"
proof (induction prog event args a i n s rule: emit_loop.induct)
  case (1 prog event args a i n s)
  show ?case
  proof (cases "i < n")
    case True
    then show ?thesis
      using "1.IH" [OF True wf_try_listener [OF "1.prems"]]
      by (subst emit_loop.simps) simp
  next
    case False
    then show ?thesis using "1.prems" by (subst emit_loop.simps) simp
  qed
qed

lemma wf_emit: "wf s \<Longrightarrow> wf (snd (emit prog s event args))"
  by (simp add: emit_def wf_emit_loop split: option.splits)

lemma wf_apply_op: "wf s \<Longrightarrow> wf (apply_op prog s x)"
  by (cases x) (simp_all add: wf_on wf_off wf_emit wf_removeAllListeners)

lemma wf_foldl: "wf s \<Longrightarrow> wf (foldl (apply_op prog) s ops)"
  by (induction ops arbitrary: s) (simp_all add: wf_apply_op)

lemma wf_run: "wf (run prog ops)"
  by (simp add: run_def wf_foldl wf_new)

subsection \<open>The mapping after each method\<close>

lemma wf_functions:
  "wf s \<Longrightarrow> events s e = Some a \<Longrightarrow> v \<in> set (arrays s a) \<Longrightarrow> typeof v = ''function''"
  unfolding wf_def by blast

lemma wf_not_NaN: "wf s \<Longrightarrow> events s e = Some a \<Longrightarrow> v \<in> set (arrays s a) \<Longrightarrow> v \<noteq> NaN"
  by (auto dest: wf_functions)

lemma map_option_upd_other:
  "(\<And>b. m = Some b \<Longrightarrow> b \<noteq> a) \<Longrightarrow> map_option (g(a := x)) m = map_option g m"
  by (cases m) auto

lemma listeners_of_on:
  assumes "wf s"
  shows "listeners_of (snd (on s event (Function f))) e =
     (if e = event
      then Some (case listeners_of s event of
                   None \<Rightarrow> [Function f]
                 | Some ls \<Rightarrow> if Function f \<in> set ls then ls else ls @ [Function f])
      else listeners_of s e)"
proof (cases "events s event")
  case None
  have "\<And>a. events s e = Some a \<Longrightarrow> a \<noteq> next_ref s"
    using assms by (auto simp: wf_def)
  with None show ?thesis
    by (auto simp: on_function_state listeners_of_def map_option_upd_other)
next
  case (Some a)
  have "\<And>b. e \<noteq> event \<Longrightarrow> events s e = Some b \<Longrightarrow> b \<noteq> a"
    using assms Some by (auto simp: wf_def)
  with Some show ?thesis
    by (auto simp: on_function_state listeners_of_def map_option_upd_other)
qed

lemma listeners_of_off:
  assumes "wf s"
  shows "listeners_of (snd (off s event listener)) e =
     (if e = event
      then (case listeners_of s event of
              None \<Rightarrow> None
            | Some ls \<Rightarrow> if remove1 listener ls = [] then None else Some (remove1 listener ls))
      else listeners_of s e)"
proof (cases "events s event")
  case None
  then show ?thesis by (simp add: off_state listeners_of_def)
next
  case (Some a)
  have other: "\<And>b. e \<noteq> event \<Longrightarrow> events s e = Some b \<Longrightarrow> b \<noteq> a"
    using assms Some by (auto simp: wf_def)
  have ne: "arrays s a \<noteq> []" using assms Some by (auto simp: wf_def)
  show ?thesis
  proof (cases "indexOf (arrays s a) listener")
    case None
    then have "listener \<notin> set (arrays s a)"
      using wf_not_NaN [OF assms Some] by (auto simp: indexOf_None strict_equals_def)
    then have "remove1 listener (arrays s a) = arrays s a" by (simp add: remove1_idem)
    with None Some ne show ?thesis by (simp add: off_state listeners_of_def)
  next
    case (Some i)
    with \<open>events s event = Some a\<close> other show ?thesis
      by (auto simp: off_state listeners_of_def map_option_upd_other)
  qed
qed

lemma listeners_of_removeAllListeners:
  "listeners_of (snd (removeAllListeners s event)) e =
     (case event of
        None \<Rightarrow> None
      | Some x \<Rightarrow> if x = [] \<or> e = x then None else listeners_of s e)"
  by (simp add: removeAllListeners_state listeners_of_def split: option.splits)

lemma emit_no_listeners:
  "listeners_of s event = None \<Longrightarrow> emit prog s event args = (Return (Flag False), s)"
  by (simp add: emit_def listeners_of_def split: option.splits)

lemma listeners_of_None_iff: "(listeners_of s event = None) = (events s event = None)"
  by (simp add: listeners_of_def)

lemma fst_emit: "\<exists>b. fst (emit prog s event args) = Return (Flag b)"
  by (auto simp: emit_def split: option.splits)

subsection \<open>Registering what is registered\<close>

lemma on_present:
  "events s event = Some a \<Longrightarrow> Function f \<in> set (arrays s a) \<Longrightarrow>
   on s event (Function f) = (Return This, s)"
  using fst_on_function [of "Function f" s event] on_function_state [of s event f]
  by (simp add: prod_eq_iff)

lemma on_on:
  "on (snd (on s event (Function f))) event (Function f) =
     (Return This, snd (on s event (Function f)))"
proof -
  obtain a where "events (snd (on s event (Function f))) event = Some a"
    and "Function f \<in> set (arrays (snd (on s event (Function f))) a)"
    by (cases "events s event") (auto simp: on_function_state)
  then show ?thesis by (rule on_present)
qed

subsection \<open>What a listener throws does not depend on the state\<close>

lemma fst_exec_indep: "fst (exec st s) = fst (exec st t)"
proof (cases st)
  case (CallOn e l)
  then show ?thesis
    by (cases "typeof l = ''function''")
       (auto simp: on_not_function split: prod.splits completion.splits dest: fst_on_function [of l s e] fst_on_function [of l t e])
next
  case (CallOff e l)
  then show ?thesis
    using fst_off [of s e l] fst_off [of t e l]
    by (auto split: prod.splits completion.splits)
next
  case (CallRemoveAllListeners e)
  then show ?thesis
    using fst_removeAllListeners [of s e] fst_removeAllListeners [of t e]
    by (auto split: prod.splits completion.splits)
next
  case (ThrowStmt v)
  then show ?thesis by simp
qed

lemma fst_run_body_indep: "fst (run_body body s) = fst (run_body body t)"
proof (induction body arbitrary: s t)
  case Nil
  then show ?case by simp
next
  case (Cons st rest)
  obtain r s' where s': "exec st s = (r, s')" by (cases "exec st s")
  obtain r' t' where t': "exec st t = (r', t')" by (cases "exec st t")
  from fst_exec_indep [of st s t] s' t' have "r' = r" by simp
  with s' t' Cons.IH [of s' t'] show ?case by (cases r) simp_all
qed

lemma fst_run_body: "fst (run_body body s) = thrown_by body"
  unfolding thrown_by_def by (rule fst_run_body_indep)

lemma reports_member:
  "f \<in> set fs \<Longrightarrow> thrown_by (prog f args) = Some e \<Longrightarrow>
   (event, e) \<in> set (reports prog event args fs)"
  by (induction fs) (auto simp: reports_def)

subsection \<open>What listeners leave unchanged\<close>

lemma exec_calls_console:
  "calls (snd (exec st s)) = calls s \<and> console (snd (exec st s)) = console s"
  by (cases st)
     (simp_all only: snd_exec on_function_state off_state removeAllListeners_state,
      auto simp: on_def Let_def new_array_def push_def split: option.splits prod.splits if_splits)

lemma run_body_calls_console:
  "calls (snd (run_body body s)) = calls s \<and> console (snd (run_body body s)) = console s"
proof (induction body arbitrary: s)
  case Nil
  then show ?case by simp
next
  case (Cons st rest)
  obtain r s' where s': "exec st s = (r, s')" by (cases "exec st s")
  with exec_calls_console [of st s] have "calls s' = calls s \<and> console s' = console s" by simp
  with s' Cons.IH [of s'] show ?case by (cases r) simp_all
qed

lemma calls_off: "calls (snd (off s event listener)) = calls s"
  by (simp add: off_state split: option.splits)

lemma owns_of_wf: "wf s \<Longrightarrow> events s event = Some a \<Longrightarrow> owns s event a"
  unfolding wf_def owns_def by blast

lemma owns_on: "owns s event a \<Longrightarrow> owns (snd (on s e l)) event a"
proof (cases "typeof l = ''function''")
  case False
  assume "owns s event a"
  with False show ?thesis by (simp add: on_not_function)
next
  case True
  assume o: "owns s event a"
  from True obtain f where f: "l = Function f" by (auto simp: typeof_function_iff)
  from o show ?thesis
    unfolding f on_function_state owns_def
    by (auto split: option.splits if_splits)
qed

lemma owns_off: "owns s event a \<Longrightarrow> owns (snd (off s e l)) event a"
  unfolding off_state owns_def
  by (auto split: option.splits if_splits)

lemma owns_removeAllListeners: "owns s event a \<Longrightarrow> owns (snd (removeAllListeners s e)) event a"
  unfolding removeAllListeners_state owns_def
  by (auto split: option.splits if_splits)

lemma owns_exec: "owns s event a \<Longrightarrow> owns (snd (exec st s)) event a"
  by (cases st) (simp_all only: snd_exec owns_on owns_off owns_removeAllListeners)

lemma array_on: "owns s event a \<Longrightarrow> \<exists>ys. arrays (snd (on s e l)) a = arrays s a @ ys"
proof (cases "typeof l = ''function''")
  case False
  then show ?thesis by (simp add: on_not_function)
next
  case True
  assume o: "owns s event a"
  from True obtain f where f: "l = Function f" by (auto simp: typeof_function_iff)
  from o show ?thesis
    unfolding f on_function_state owns_def
    by (auto split: option.splits if_splits)
qed

lemma array_off: "owns s event a \<Longrightarrow> e \<noteq> event \<Longrightarrow> arrays (snd (off s e l)) a = arrays s a"
  unfolding off_state owns_def
  by (auto split: option.splits if_splits)

lemma array_removeAllListeners: "arrays (snd (removeAllListeners s e)) a = arrays s a"
  unfolding removeAllListeners_state
  by (auto split: option.splits if_splits)

lemma array_exec:
  "owns s event a \<Longrightarrow> \<not> unregisters event st \<Longrightarrow>
   \<exists>ys. arrays (snd (exec st s)) a = arrays s a @ ys"
proof (cases st)
  case (CallOn e l)
  assume "owns s event a"
  with CallOn show ?thesis by (simp only: snd_exec array_on)
next
  case (CallOff e l)
  assume "owns s event a" and "\<not> unregisters event st"
  with CallOff have "arrays (snd (exec st s)) a = arrays s a"
    by (simp only: snd_exec unregisters.simps array_off not_False_eq_True)
  then show ?thesis by simp
next
  case (CallRemoveAllListeners e)
  then show ?thesis by (simp only: snd_exec array_removeAllListeners) simp
next
  case (ThrowStmt v)
  then show ?thesis by (simp only: snd_exec) simp
qed

lemma run_body_keeps:
  "owns s event a \<Longrightarrow> \<forall>st \<in> set body. \<not> unregisters event st \<Longrightarrow>
   owns (snd (run_body body s)) event a \<and>
   (\<exists>ys. arrays (snd (run_body body s)) a = arrays s a @ ys)"
proof (induction body arbitrary: s)
  case Nil
  then show ?case by simp
next
  case (Cons st rest)
  obtain r s' where s': "exec st s = (r, s')" by (cases "exec st s")
  from Cons.prems have nt: "\<not> unregisters event st" by simp
  from owns_exec [OF Cons.prems(1), of st] s' have o: "owns s' event a" by simp
  from array_exec [OF Cons.prems(1) nt] s' obtain ys where a: "arrays s' a = arrays s a @ ys"
    by auto
  from Cons.prems have "\<forall>st \<in> set rest. \<not> unregisters event st" by simp
  from Cons.IH [OF o this] obtain zs where
    ih: "owns (snd (run_body rest s')) event a" "arrays (snd (run_body rest s')) a = arrays s' a @ zs"
    by auto
  show ?case
  proof (cases r)
    case None
    with s' ih a show ?thesis by simp
  next
    case (Some e)
    with s' o a show ?thesis by simp
  qed
qed

subsection \<open>One iteration, and the loop, when no listener unregisters from the event\<close>

lemma try_listener_keeps:
  assumes "owns s event a" and "\<forall>st \<in> set (prog f args). \<not> unregisters event st"
  shows "owns (try_listener prog event args (Function f) s) event a"
    and "\<exists>ys. arrays (try_listener prog event args (Function f) s) a = arrays s a @ ys"
    and "calls (try_listener prog event args (Function f) s) = calls s @ [(f, args)]"
    and "console (try_listener prog event args (Function f) s) =
           console s @ reports prog event args [f]"
proof -
  let ?s0 = "s\<lparr>calls := calls s @ [(f, args)]\<rparr>"
  obtain r s' where r: "run_body (prog f args) ?s0 = (r, s')"
    by (cases "run_body (prog f args) ?s0")
  have o0: "owns ?s0 event a" using assms(1) by (simp add: owns_def)
  from run_body_keeps [OF o0 assms(2)] r
  have q: "owns s' event a" "\<exists>ys. arrays s' a = arrays s a @ ys" by simp_all
  from run_body_calls_console [of "prog f args" ?s0] r
  have c: "calls s' = calls s @ [(f, args)]" "console s' = console s" by simp_all
  from fst_run_body [of "prog f args" ?s0] r have t: "thrown_by (prog f args) = r" by simp
  have tl: "try_listener prog event args (Function f) s =
              (case r of None \<Rightarrow> s' | Some e \<Rightarrow> console_error event e s')"
    by (simp add: try_listener_def r)
  show "owns (try_listener prog event args (Function f) s) event a"
    using q(1) by (cases r) (simp_all add: tl owns_def console_error_def)
  show "\<exists>ys. arrays (try_listener prog event args (Function f) s) a = arrays s a @ ys"
    using q(2) by (cases r) (simp_all add: tl console_error_def)
  show "calls (try_listener prog event args (Function f) s) = calls s @ [(f, args)]"
    using c(1) by (cases r) (simp_all add: tl console_error_def)
  show "console (try_listener prog event args (Function f) s) =
           console s @ reports prog event args [f]"
    using c(2) t by (cases r) (auto simp: tl console_error_def reports_def)
qed

lemma emit_loop_keeps:
  assumes "owns s event a" and "\<exists>ys. arrays s a = map Function fs @ ys"
    and "no_unregister prog args event fs" and "n = length fs" and "i \<le> n"
  shows "calls (emit_loop prog event args a i n s) = calls s @ map (\<lambda>f. (f, args)) (drop i fs) \<and>
         console (emit_loop prog event args a i n s) =
           console s @ reports prog event args (drop i fs)"
  using assms
proof (induction prog event args a i n s rule: emit_loop.induct)
  case (1 prog event args a i n s)
  show ?case
  proof (cases "i < n")
    case False
    with "1.prems" show ?thesis
      by (subst (1 2) emit_loop.simps) (simp add: reports_def)
  next
    case True
    with "1.prems" have i: "i < length fs" by simp
    let ?f = "fs ! i"
    let ?s1 = "try_listener prog event args (element (arrays s a) i) s"
    from "1.prems"(2) obtain ys where ys: "arrays s a = map Function fs @ ys" by auto
    have el: "element (arrays s a) i = Function ?f"
      using i ys by (simp add: element_def nth_append)
    have qf: "\<forall>st \<in> set (prog ?f args). \<not> unregisters event st"
      using "1.prems"(3) i by (auto simp: no_unregister_def)
    note tl = try_listener_keeps
                [where s = s and event = event and a = a and prog = prog and f = ?f
                   and args = args, OF "1.prems"(1) qf]
    have o1: "owns ?s1 event a" using tl(1) el by simp
    have a1: "\<exists>zs. arrays ?s1 a = map Function fs @ zs" using tl(2) el ys by auto
    have c1: "calls ?s1 = calls s @ [(?f, args)]" using tl(3) el by simp
    have k1: "console ?s1 = console s @ reports prog event args [?f]" using tl(4) el by simp
    from True have "Suc i \<le> n" by simp
    from "1.IH" [OF True o1 a1 "1.prems"(3) "1.prems"(4) this]
    have ih: "calls (emit_loop prog event args a (Suc i) n ?s1) =
                calls ?s1 @ map (\<lambda>f. (f, args)) (drop (Suc i) fs)"
             "console (emit_loop prog event args a (Suc i) n ?s1) =
                console ?s1 @ reports prog event args (drop (Suc i) fs)"
      by simp_all
    have d: "drop i fs = ?f # drop (Suc i) fs" using i by (simp add: Cons_nth_drop_Suc)
    have step: "emit_loop prog event args a i n s = emit_loop prog event args a (Suc i) n ?s1"
      using True by (subst emit_loop.simps) simp
    show ?thesis
      unfolding step ih c1 k1 d
      by (simp add: reports_def)
  qed
qed

text \<open>
  The dispatch when no listener unregisters from the event while it runs: \<open>true\<close> is
  returned, every function of the sequence is invoked once, in order and with the
  arguments, and every throw is reported.
\<close>

lemma emit_keeps:
  assumes "wf s" and "listeners_of s event = Some (map Function fs)"
    and "no_unregister prog args event fs"
  shows "fst (emit prog s event args) = Return (Flag True)"
    and "calls (snd (emit prog s event args)) = calls s @ map (\<lambda>f. (f, args)) fs"
    and "console (snd (emit prog s event args)) = console s @ reports prog event args fs"
proof -
  from assms(2) obtain a where a: "events s event = Some a" "arrays s a = map Function fs"
    by (auto simp: listeners_of_def)
  from assms(1) a have ne: "fs \<noteq> []" by (auto simp: wf_def)
  have e: "emit prog s event args =
             (Return (Flag True), emit_loop prog event args a 0 (length fs) s)"
    using a ne by (simp add: emit_def)
  from a(2) have "\<exists>ys. arrays s a = map Function fs @ ys" by simp
  from emit_loop_keeps [OF owns_of_wf [OF assms(1) a(1)] this assms(3) refl, of 0]
  have l: "calls (emit_loop prog event args a 0 (length fs) s) = calls s @ map (\<lambda>f. (f, args)) fs"
          "console (emit_loop prog event args a 0 (length fs) s) =
             console s @ reports prog event args fs"
    by simp_all
  show "fst (emit prog s event args) = Return (Flag True)" by (simp add: e)
  show "calls (snd (emit prog s event args)) = calls s @ map (\<lambda>f. (f, args)) fs"
    by (simp add: e l)
  show "console (snd (emit prog s event args)) = console s @ reports prog event args fs"
    by (simp add: e l)
qed

subsection \<open>Sequences of functions\<close>

text \<open>
  In a well-formed state every sequence of the mapping is \<open>map Function fs\<close> for a
  non-empty list \<open>fs\<close> of distinct functions.
\<close>

lemma wf_listeners_of:
  assumes "wf s" and "listeners_of s event = Some ls"
  shows "\<exists>fs. ls = map Function fs \<and> distinct fs \<and> fs \<noteq> []"
proof -
  from assms(2) obtain a where a: "events s event = Some a" "arrays s a = ls"
    by (auto simp: listeners_of_def)
  from assms(1) a have "\<forall>v \<in> set ls. \<exists>f. v = Function f"
    by (auto simp: typeof_function_iff [symmetric] dest: wf_functions)
  then have "\<exists>fs. ls = map Function fs" by (simp add: ex_map_conv)
  then obtain fs where fs: "ls = map Function fs" by blast
  from assms(1) a have "distinct ls" "ls \<noteq> []" by (auto simp: wf_def)
  with fs have "distinct fs" "fs \<noteq> []" by (auto simp: distinct_map)
  with fs show ?thesis by blast
qed

lemma distinct_functions:
  "wf s \<Longrightarrow> listeners_of s event = Some (map Function fs) \<Longrightarrow> distinct fs"
proof -
  assume w: "wf s" and "listeners_of s event = Some (map Function fs)"
  then obtain a where a: "events s event = Some a" "arrays s a = map Function fs"
    by (auto simp: listeners_of_def)
  from w a(1) have "distinct (arrays s a)" unfolding wf_def by blast
  with a(2) show "distinct fs" by (simp add: distinct_map)
qed

lemma count_list_invocations: "count_list (map (\<lambda>g. (g, args)) fs) (f, args) = count_list fs f"
  by (induction fs) simp_all

lemma distinct_count_list_one: "distinct fs \<Longrightarrow> f \<in> set fs \<Longrightarrow> count_list fs f = 1"
  by (induction fs) (auto simp: count_list_0_iff)

lemma remove1_map_Function: "remove1 (Function f) (map Function fs) = map Function (remove1 f fs)"
  by (induction fs) auto

lemma filter_absent: "f \<notin> set fs \<Longrightarrow> filter (\<lambda>g. g \<noteq> f) fs = fs"
  by (induction fs) auto

lemma distinct_remove1_filter: "distinct fs \<Longrightarrow> remove1 f fs = filter (\<lambda>g. g \<noteq> f) fs"
  by (induction fs) (auto simp: filter_absent)

section \<open>removeAllListeners\<close>

text \<open>
  With a non-empty event name \<open>removeAllListeners\<close> deletes that key and leaves every
  other event's sequence as it was.
\<close>

lemma removeAllListeners_named:
  "event \<noteq> [] \<Longrightarrow>
   removeAllListeners s (Some event) = (Return This, s\<lparr>events := (events s)(event := None)\<rparr>) \<and>
   listeners_of (snd (removeAllListeners s (Some event))) e =
     (if e = event then None else listeners_of s e)"
  by (simp add: removeAllListeners_def listeners_of_def)

text \<open>
  C1. With the empty string as event name the test \<open>if (event)\<close> fails, and
  \<open>removeAllListeners('')\<close> does what \<open>removeAllListeners()\<close> does: on an emitter
  with a listener of \<open>''\<close> and a listener of \<open>a\<close> it deletes both sequences, and a
  later \<open>emit('a')\<close> returns \<open>false\<close>.
\<close>

theorem removeAllListeners_empty_name:
  "removeAllListeners s (Some '''') = removeAllListeners s None \<and>
   listeners_of (run silent [Register '''' (Function 0), Register ''a'' (Function 1)]) ''a''
     = Some [Function 1] \<and>
   listeners_of (snd (removeAllListeners
       (run silent [Register '''' (Function 0), Register ''a'' (Function 1)]) (Some ''''))) ''a''
     = None \<and>
   emit silent (snd (removeAllListeners
       (run silent [Register '''' (Function 0), Register ''a'' (Function 1)]) (Some ''''))) ''a'' []
     = (Return (Flag False), snd (removeAllListeners
       (run silent [Register '''' (Function 0), Register ''a'' (Function 1)]) (Some '''')))"
proof -
  have a: "listeners_of (run silent [Register '''' (Function 0), Register ''a'' (Function 1)]) ''a''
     = Some [Function 1]" by code_simp
  have b: "listeners_of (snd (removeAllListeners
       (run silent [Register '''' (Function 0), Register ''a'' (Function 1)]) (Some ''''))) ''a''
     = None" by (simp add: listeners_of_removeAllListeners)
  show ?thesis using a b by (simp add: removeAllListeners_def emit_no_listeners)
qed

text \<open>
  C8. \<open>removeAllListeners()\<close> without an argument empties the mapping, which is then
  that of a new emitter: no event has listeners, and \<open>emit\<close> of any event returns
  \<open>false\<close> and changes nothing.
\<close>

theorem removeAllListeners_all:
  "removeAllListeners s None = (Return This, s\<lparr>events := Map.empty\<rparr>) \<and>
   events (snd (removeAllListeners s None)) = events new_EventEmitter \<and>
   (\<forall>event. listeners_of (snd (removeAllListeners s None)) event = None) \<and>
   (\<forall>event args. emit prog (snd (removeAllListeners s None)) event args =
      (Return (Flag False), snd (removeAllListeners s None)))"
  by (simp add: removeAllListeners_def new_EventEmitter_def listeners_of_def emit_def)

section \<open>emit\<close>

text \<open>
  \<open>emit\<close> never throws: it returns a boolean whatever the listeners do. In the model,
  when no body of a listener of the event calls \<open>off\<close> for it, \<open>emit\<close> returns
  \<open>true\<close>, every function of the sequence is invoked, each throw is reported to the
  console with the event name, and every listener after a throwing one is still invoked
  in the same dispatch.
\<close>

lemma emit_isolates_listener_errors:
  "(\<exists>b. fst (emit prog s event args) = Return (Flag b)) \<and>
   (wf s \<and> listeners_of s event = Some (map Function fs) \<and> no_unregister prog args event fs \<longrightarrow>
      fst (emit prog s event args) = Return (Flag True) \<and>
      calls (snd (emit prog s event args)) = calls s @ map (\<lambda>f. (f, args)) fs \<and>
      console (snd (emit prog s event args)) = console s @ reports prog event args fs \<and>
      (\<forall>i<length fs. \<forall>e. thrown_by (prog (fs ! i) args) = Some e \<longrightarrow>
         (event, e) \<in> set (console (snd (emit prog s event args))) \<and>
         (\<forall>j. i < j \<and> j < length fs \<longrightarrow>
            (fs ! j, args) \<in> set (drop (length (calls s)) (calls (snd (emit prog s event args)))))))"
proof (intro conjI impI)
  show "\<exists>b. fst (emit prog s event args) = Return (Flag b)" by (rule fst_emit)
next
  assume a: "wf s \<and> listeners_of s event = Some (map Function fs) \<and> no_unregister prog args event fs"
  then have w: "wf s" and l: "listeners_of s event = Some (map Function fs)"
    and q: "no_unregister prog args event fs" by simp_all
  note e = emit_keeps [OF w l q]
  show "fst (emit prog s event args) = Return (Flag True)" by (rule e(1))
  show "calls (snd (emit prog s event args)) = calls s @ map (\<lambda>f. (f, args)) fs" by (rule e(2))
  show "console (snd (emit prog s event args)) = console s @ reports prog event args fs"
    by (rule e(3))
  show "\<forall>i<length fs. \<forall>e. thrown_by (prog (fs ! i) args) = Some e \<longrightarrow>
         (event, e) \<in> set (console (snd (emit prog s event args))) \<and>
         (\<forall>j. i < j \<and> j < length fs \<longrightarrow>
            (fs ! j, args) \<in> set (drop (length (calls s)) (calls (snd (emit prog s event args)))))"
  proof (intro allI impI conjI)
    fix i err assume "i < length fs" and "thrown_by (prog (fs ! i) args) = Some err"
    then have "(event, err) \<in> set (reports prog event args fs)"
      by (intro reports_member [of "fs ! i"]) simp_all
    then show "(event, err) \<in> set (console (snd (emit prog s event args)))"
      by (simp add: e(3))
  next
    fix i j assume "i < j \<and> j < length fs"
    then show "(fs ! j, args) \<in> set (drop (length (calls s)) (calls (snd (emit prog s event args))))"
      by (simp add: e(2))
  qed
qed

lemma emit_isolates_listener_errors_example:
  "fst (emit busy (run busy [Register ''x'' (Function 0), Register ''x'' (Function 1),
          Register ''x'' (Function 2), Register ''x'' (Function 3)]) ''x'' [Num 1])
     = Return (Flag True) \<and>
   calls (snd (emit busy (run busy [Register ''x'' (Function 0), Register ''x'' (Function 1),
          Register ''x'' (Function 2), Register ''x'' (Function 3)]) ''x'' [Num 1]))
     = [(0, [Num 1]), (1, [Num 1]), (2, [Num 1]), (3, [Num 1])] \<and>
   console (snd (emit busy (run busy [Register ''x'' (Function 0), Register ''x'' (Function 1),
          Register ''x'' (Function 2), Register ''x'' (Function 3)]) ''x'' [Num 1]))
     = [(''x'', Thrown (Str ''boom'')), (''x'', TypeError ''Listener must be a function'')]"
proof -
  let ?ops = "[Register ''x'' (Function 0), Register ''x'' (Function 1),
          Register ''x'' (Function 2), Register ''x'' (Function 3)]"
  let ?s = "run busy ?ops"
  have w: "wf ?s" by (rule wf_run)
  have l: "listeners_of ?s ''x'' = Some (map Function [0, 1, 2, 3])" by code_simp
  have q: "no_unregister busy [Num 1] ''x'' [0, 1, 2, 3]" by (simp add: no_unregister_def busy_def)
  have c: "calls ?s = []" by code_simp
  have k: "console ?s = []" by code_simp
  have r: "reports busy ''x'' [Num 1] [0, 1, 2, 3] =
     [(''x'', Thrown (Str ''boom'')), (''x'', TypeError ''Listener must be a function'')]"
    by code_simp
  from emit_isolates_listener_errors [of busy ?s "''x''" "[Num 1]" "[0, 1, 2, 3]"] w l q
  have "fst (emit busy ?s ''x'' [Num 1]) = Return (Flag True) \<and>
      calls (snd (emit busy ?s ''x'' [Num 1])) = calls ?s @ map (\<lambda>f. (f, [Num 1])) [0, 1, 2, 3] \<and>
      console (snd (emit busy ?s ''x'' [Num 1])) = console ?s @ reports busy ''x'' [Num 1] [0, 1, 2, 3]"
    by blast
  then show ?thesis unfolding c k r by simp
qed

text \<open>
  C2. The two listeners 0 and 1 are registered for \<open>x\<close>; listener 0 unregisters
  itself and then throws. \<open>emit('x')\<close> catches the throw, reports it and returns
  \<open>true\<close>, but the listener after the throwing one is not invoked in that dispatch:
  the array has shrunk under the loop, and the read of \<open>listeners[1]\<close> past its end
  adds a \<open>TypeError\<close> to the console.
\<close>

theorem emit_skips_listener_after_throw:
  "listeners_of (run once_x_throwing [Register ''x'' (Function 0), Register ''x'' (Function 1)]) ''x''
     = Some [Function 0, Function 1] \<and>
   thrown_by (once_x_throwing 0 []) = Some (Thrown (Str ''boom'')) \<and>
   fst (emit once_x_throwing
          (run once_x_throwing [Register ''x'' (Function 0), Register ''x'' (Function 1)]) ''x'' [])
     = Return (Flag True) \<and>
   calls (snd (emit once_x_throwing
          (run once_x_throwing [Register ''x'' (Function 0), Register ''x'' (Function 1)]) ''x'' []))
     = [(0, [])] \<and>
   (1, []) \<notin> set (calls (snd (emit once_x_throwing
          (run once_x_throwing [Register ''x'' (Function 0), Register ''x'' (Function 1)]) ''x'' []))) \<and>
   console (snd (emit once_x_throwing
          (run once_x_throwing [Register ''x'' (Function 0), Register ''x'' (Function 1)]) ''x'' []))
     = [(''x'', Thrown (Str ''boom'')), (''x'', TypeError ''Cannot read properties of undefined'')]"
proof -
  let ?s = "run once_x_throwing [Register ''x'' (Function 0), Register ''x'' (Function 1)]"
  have 1: "listeners_of ?s ''x'' = Some [Function 0, Function 1]" by code_simp
  have 2: "thrown_by (once_x_throwing 0 []) = Some (Thrown (Str ''boom''))" by code_simp
  have 3: "fst (emit once_x_throwing ?s ''x'' []) = Return (Flag True)" by code_simp
  have 4: "calls (snd (emit once_x_throwing ?s ''x'' [])) = [(0, [])]" by code_simp
  have 5: "console (snd (emit once_x_throwing ?s ''x'' [])) =
     [(''x'', Thrown (Str ''boom'')), (''x'', TypeError ''Cannot read properties of undefined'')]"
    by code_simp
  have 6: "(1, []) \<notin> set (calls (snd (emit once_x_throwing ?s ''x'' [])))"
    unfolding 4 by simp
  show ?thesis by (intro conjI 1 2 3 4 5 6)
qed

text \<open>
  C3. The two listeners 0 and 1 are registered for \<open>x\<close>, and listener 0 unregisters
  itself when invoked. \<open>emit('x')\<close> returns \<open>true\<close> and invokes listener 0 only:
  listener 1, registered before, during and after the dispatch, is skipped, and a
  \<open>TypeError\<close> for the read of \<open>listeners[1]\<close> is reported as an error of a listener.
  (With no sequence for the event \<open>emit\<close> returns \<open>false\<close> and changes nothing,
  \<open>emit_no_listeners\<close>; when no listener unregisters from the event during the
  dispatch every listener is invoked once and in order, \<open>emit_keeps\<close>.)
\<close>

theorem emit_skips_listener_after_removal:
  "listeners_of (run once_x [Register ''x'' (Function 0), Register ''x'' (Function 1)]) ''x''
     = Some [Function 0, Function 1] \<and>
   fst (emit once_x (run once_x [Register ''x'' (Function 0), Register ''x'' (Function 1)]) ''x'' [])
     = Return (Flag True) \<and>
   calls (snd (emit once_x
          (run once_x [Register ''x'' (Function 0), Register ''x'' (Function 1)]) ''x'' []))
     = [(0, [])] \<and>
   console (snd (emit once_x
          (run once_x [Register ''x'' (Function 0), Register ''x'' (Function 1)]) ''x'' []))
     = [(''x'', TypeError ''Cannot read properties of undefined'')] \<and>
   listeners_of (snd (emit once_x
          (run once_x [Register ''x'' (Function 0), Register ''x'' (Function 1)]) ''x'' [])) ''x''
     = Some [Function 1]"
proof -
  let ?s = "run once_x [Register ''x'' (Function 0), Register ''x'' (Function 1)]"
  have 1: "listeners_of ?s ''x'' = Some [Function 0, Function 1]" by code_simp
  have 2: "fst (emit once_x ?s ''x'' []) = Return (Flag True)" by code_simp
  have 3: "calls (snd (emit once_x ?s ''x'' [])) = [(0, [])]" by code_simp
  have 4: "console (snd (emit once_x ?s ''x'' [])) =
     [(''x'', TypeError ''Cannot read properties of undefined'')]" by code_simp
  have 5: "listeners_of (snd (emit once_x ?s ''x'' [])) ''x'' = Some [Function 1]" by code_simp
  show ?thesis by (intro conjI 1 2 3 4 5)
qed

section \<open>The invariant\<close>

text \<open>
  C4. Whatever sequence of \<open>on\<close>, \<open>off\<close>, \<open>emit\<close> and \<open>removeAllListeners\<close> calls is
  made on a new emitter, with whatever listeners (those that change the emitter while
  \<open>emit\<close> runs included), every key of the mapping has a non-empty listener sequence
  and no listener occurs twice in a sequence.
\<close>

theorem invariant_run: "invariant (run prog ops)"
  by (rule wf_invariant) (rule wf_run)

theorem invariant_run_witness:
  "listeners_of (run once_x [Register ''x'' (Function 0), Register ''x'' (Function 1),
                             Dispatch ''x'' []]) ''x'' = Some [Function 1] \<and>
   invariant (run once_x [Register ''x'' (Function 0), Register ''x'' (Function 1),
                          Dispatch ''x'' []]) \<and>
   listeners_of (run once_x [Register ''x'' (Function 0), Register ''x'' (Function 1),
                             Dispatch ''x'' [], Unregister ''x'' (Function 1)]) ''x'' = None \<and>
   invariant (run once_x [Register ''x'' (Function 0), Register ''x'' (Function 1),
                          Dispatch ''x'' [], Unregister ''x'' (Function 1)])"
proof -
  let ?ops = "[Register ''x'' (Function 0), Register ''x'' (Function 1), Dispatch ''x'' []]"
  let ?ops' = "[Register ''x'' (Function 0), Register ''x'' (Function 1), Dispatch ''x'' [],
                Unregister ''x'' (Function 1)]"
  have a: "listeners_of (run once_x ?ops) ''x'' = Some [Function 1]" by code_simp
  have b: "listeners_of (run once_x ?ops') ''x'' = None" by code_simp
  show ?thesis
    using invariant_run [of once_x ?ops] invariant_run [of once_x ?ops'] a b
    by simp
qed

section \<open>on\<close>

text \<open>
  Registering a function that is already in the event's sequence changes nothing
  at all, does not throw and returns the emitter; so registering twice, from any state,
  leaves the state of registering once. The function is in the sequence exactly once,
  and in the model a dispatch in which no body of a listener calls \<open>off\<close> for the
  event invokes it exactly once.
\<close>

lemma on_again_is_noop:
  assumes "wf s" and "listeners_of s event = Some (map Function fs)" and "f \<in> set fs"
  shows
    "on s event (Function f) = (Return This, s) \<and>
     (\<forall>t. on (snd (on t event (Function f))) event (Function f) =
            (Return This, snd (on t event (Function f)))) \<and>
     count_list fs f = 1 \<and>
     (no_unregister prog args event fs \<longrightarrow>
        fst (emit prog (snd (on s event (Function f))) event args) = Return (Flag True) \<and>
        count_list (drop (length (calls s))
                      (calls (snd (emit prog (snd (on s event (Function f))) event args))))
          (f, args) = 1)"
proof -
  from assms(2) obtain a where a: "events s event = Some a" "arrays s a = map Function fs"
    by (auto simp: listeners_of_def)
  from a assms(3) have noop: "on s event (Function f) = (Return This, s)"
    by (intro on_present [of s event a]) simp_all
  have one: "count_list fs f = 1"
    using distinct_functions [OF assms(1,2)] assms(3) by (rule distinct_count_list_one)
  have "fst (emit prog s event args) = Return (Flag True) \<and>
        count_list (drop (length (calls s)) (calls (snd (emit prog s event args)))) (f, args) = 1"
    if q: "no_unregister prog args event fs"
    using emit_keeps [OF assms(1,2) q] one by (simp add: count_list_invocations)
  with noop one on_on show ?thesis by simp
qed

lemma on_again_is_noop_example:
  "on (run busy [Register ''x'' (Function 0), Register ''x'' (Function 1),
                 Register ''x'' (Function 2)]) ''x'' (Function 1)
     = (Return This, run busy [Register ''x'' (Function 0), Register ''x'' (Function 1),
                               Register ''x'' (Function 2)]) \<and>
   count_list (calls (snd (emit busy (snd (on (run busy [Register ''x'' (Function 0),
       Register ''x'' (Function 1), Register ''x'' (Function 2)]) ''x'' (Function 1))) ''x'' [])))
     (1, []) = 1"
proof -
  let ?ops = "[Register ''x'' (Function 0), Register ''x'' (Function 1),
               Register ''x'' (Function 2)]"
  let ?s = "run busy ?ops"
  have w: "wf ?s" by (rule wf_run)
  have l: "listeners_of ?s ''x'' = Some (map Function [0, 1, 2])" by code_simp
  have q: "no_unregister busy [] ''x'' [0, 1, 2]" by (simp add: no_unregister_def busy_def)
  have c: "calls ?s = []" by code_simp
  have m: "(1::nat) \<in> set [0, 1, 2]" by simp
  note t = on_again_is_noop [OF w l m, of busy "[]"]
  from t have A: "on ?s ''x'' (Function 1) = (Return This, ?s)" by blast
  from t q have "count_list (drop (length (calls ?s))
          (calls (snd (emit busy (snd (on ?s ''x'' (Function 1))) ''x'' [])))) (1, []) = 1"
    by blast
  then have B: "count_list (calls (snd (emit busy (snd (on ?s ''x'' (Function 1))) ''x'' [])))
     (1, []) = 1"
    unfolding c by simp
  show ?thesis by (intro conjI A B)
qed

text \<open>
  C5. Listener 0 of \<open>x\<close> unregisters itself when invoked; listener 1 is registered
  for \<open>x\<close> twice after it. The second registration changes nothing, the sequence
  holds listener 1 once, and yet \<open>emit('x')\<close> invokes listener 0 only: the
  doubly-registered listener is invoked zero times in that dispatch, not once.
\<close>

theorem emit_skips_doubly_registered_listener:
  "on (run once_x [Register ''x'' (Function 0), Register ''x'' (Function 1)]) ''x'' (Function 1)
     = (Return This, run once_x [Register ''x'' (Function 0), Register ''x'' (Function 1)]) \<and>
   listeners_of (run once_x [Register ''x'' (Function 0), Register ''x'' (Function 1),
                             Register ''x'' (Function 1)]) ''x''
     = Some [Function 0, Function 1] \<and>
   fst (emit once_x (run once_x [Register ''x'' (Function 0),
       Register ''x'' (Function 1), Register ''x'' (Function 1)]) ''x'' []) = Return (Flag True) \<and>
   calls (snd (emit once_x (run once_x [Register ''x'' (Function 0),
       Register ''x'' (Function 1), Register ''x'' (Function 1)]) ''x'' [])) = [(0, [])] \<and>
   count_list (calls (snd (emit once_x (run once_x [Register ''x'' (Function 0),
       Register ''x'' (Function 1), Register ''x'' (Function 1)]) ''x'' []))) (1, []) = 0"
proof -
  let ?s = "run once_x [Register ''x'' (Function 0), Register ''x'' (Function 1),
                        Register ''x'' (Function 1)]"
  have 0: "on (run once_x [Register ''x'' (Function 0), Register ''x'' (Function 1)]) ''x''
             (Function 1)
     = (Return This, run once_x [Register ''x'' (Function 0), Register ''x'' (Function 1)])"
    using on_on [of "snd (on new_EventEmitter ''x'' (Function 0))" "''x''" 1]
    by (simp add: run_def)
  have 1: "listeners_of ?s ''x'' = Some [Function 0, Function 1]" by code_simp
  have 2: "calls (snd (emit once_x ?s ''x'' [])) = [(0, [])]" by code_simp
  have 3: "count_list (calls (snd (emit once_x ?s ''x'' []))) (1, []) = 0"
    unfolding 2 by simp
  have 4: "fst (emit once_x ?s ''x'' []) = Return (Flag True)" by code_simp
  show ?thesis by (intro conjI 0 1 2 3 4)
qed

text \<open>
  C6. \<open>on\<close> throws exactly when the listener is not a function; the throw is the
  \<open>TypeError\<close> and leaves the whole state, the mapping with it, as it was; with a
  function it returns the emitter.
\<close>

theorem on_throws_iff_not_callable:
  "((\<exists>e. fst (on s event listener) = Throw e) \<longleftrightarrow> typeof listener \<noteq> ''function'') \<and>
   (typeof listener \<noteq> ''function'' \<longrightarrow>
      on s event listener = (Throw (TypeError ''Listener must be a function''), s)) \<and>
   (typeof listener = ''function'' \<longrightarrow> fst (on s event listener) = Return This)"
proof (cases "typeof listener = ''function''")
  case True
  then show ?thesis by (simp add: fst_on_function)
next
  case False
  then show ?thesis by (simp add: on_not_function)
qed

theorem on_throws_iff_not_callable_witness:
  "on new_EventEmitter ''greet'' (Num 5) =
     (Throw (TypeError ''Listener must be a function''), new_EventEmitter) \<and>
   fst (on new_EventEmitter ''greet'' (Function 0)) = Return This"
  using on_throws_iff_not_callable [of new_EventEmitter "''greet''" "Num 5"]
        on_throws_iff_not_callable [of new_EventEmitter "''greet''" "Function 0"]
  by simp

section \<open>off\<close>

text \<open>
  C7. \<open>off\<close> changes nothing when the event has no sequence or the listener is not
  in it. When the listener is in it, the entry at the first index holding it is removed
  and the rest no_unregister its order; a sequence that becomes empty is deleted with its key;
  the sequences of the other events are unchanged.
\<close>

theorem off_removes_first_match:
  assumes "wf s"
  shows
    "(listeners_of s event = None \<longrightarrow> off s event listener = (Return This, s)) \<and>
     (\<forall>ls. listeners_of s event = Some ls \<and> listener \<notin> set ls \<longrightarrow>
        off s event listener = (Return This, s)) \<and>
     (\<forall>ls. listeners_of s event = Some ls \<and> listener \<in> set ls \<longrightarrow>
        (\<exists>i<length ls. ls ! i = listener \<and> (\<forall>j<i. ls ! j \<noteq> listener) \<and>
           remove1 listener ls = take i ls @ drop (Suc i) ls) \<and>
        listeners_of (snd (off s event listener)) event =
          (if remove1 listener ls = [] then None else Some (remove1 listener ls)) \<and>
        (remove1 listener ls = [] \<longrightarrow> events (snd (off s event listener)) event = None) \<and>
        (\<forall>e. e \<noteq> event \<longrightarrow> listeners_of (snd (off s event listener)) e = listeners_of s e))"
proof (intro conjI allI impI)
  assume "listeners_of s event = None"
  then show "off s event listener = (Return This, s)"
    by (simp add: off_def listeners_of_def)
next
  fix ls assume "listeners_of s event = Some ls \<and> listener \<notin> set ls"
  then show "off s event listener = (Return This, s)"
    by (auto simp: off_def listeners_of_def indexOf_not_member)
next
  fix ls assume a: "listeners_of s event = Some ls \<and> listener \<in> set ls"
  then obtain a' where a': "events s event = Some a'" "arrays s a' = ls"
    by (auto simp: listeners_of_def)
  with a assms have "listener \<noteq> NaN" by (auto dest: wf_not_NaN)
  with a obtain i where "indexOf ls listener = Some i" by (auto dest: indexOf_member)
  from indexOf_Some [OF this]
  show "\<exists>i<length ls. ls ! i = listener \<and> (\<forall>j<i. ls ! j \<noteq> listener) \<and>
          remove1 listener ls = take i ls @ drop (Suc i) ls"
    by (intro exI [of _ i]) simp
next
  fix ls assume "listeners_of s event = Some ls \<and> listener \<in> set ls"
  then show "listeners_of (snd (off s event listener)) event =
          (if remove1 listener ls = [] then None else Some (remove1 listener ls))"
    by (simp add: listeners_of_off [OF assms])
next
  fix ls assume "listeners_of s event = Some ls \<and> listener \<in> set ls"
    and "remove1 listener ls = []"
  then have "listeners_of (snd (off s event listener)) event = None"
    by (simp add: listeners_of_off [OF assms])
  then show "events (snd (off s event listener)) event = None"
    by (simp add: listeners_of_None_iff)
next
  fix ls e assume "e \<noteq> event"
  then show "listeners_of (snd (off s event listener)) e = listeners_of s e"
    by (simp add: listeners_of_off [OF assms])
qed

theorem off_removes_first_match_witness:
  "listeners_of (run silent [Register ''x'' (Function 0), Register ''x'' (Function 1),
                             Register ''y'' (Function 0)]) ''x''
     = Some [Function 0, Function 1] \<and>
   listeners_of (snd (off (run silent [Register ''x'' (Function 0), Register ''x'' (Function 1),
                             Register ''y'' (Function 0)]) ''x'' (Function 0))) ''x''
     = Some [Function 1] \<and>
   listeners_of (snd (off (run silent [Register ''x'' (Function 0), Register ''x'' (Function 1),
                             Register ''y'' (Function 0)]) ''x'' (Function 0))) ''y''
     = Some [Function 0] \<and>
   events (snd (off (run silent [Register ''y'' (Function 0)]) ''y'' (Function 0))) ''y'' = None \<and>
   off (run silent [Register ''y'' (Function 0)]) ''x'' (Function 0)
     = (Return This, run silent [Register ''y'' (Function 0)])"
proof -
  let ?ops = "[Register ''x'' (Function 0), Register ''x'' (Function 1),
               Register ''y'' (Function 0)]"
  let ?s = "run silent ?ops"
  let ?t = "run silent [Register ''y'' (Function 0)]"
  have x: "listeners_of ?s ''x'' = Some [Function 0, Function 1]" by code_simp
  have y: "listeners_of ?s ''y'' = Some [Function 0]" by code_simp
  have ty: "listeners_of ?t ''y'' = Some [Function 0]" by code_simp
  have tx: "listeners_of ?t ''x'' = None" by code_simp
  note A = off_removes_first_match [OF wf_run [of silent ?ops], of "''x''" "Function 0"]
  note B = off_removes_first_match
             [OF wf_run [of silent "[Register ''y'' (Function 0)]"], of "''y''" "Function 0"]
  note C = off_removes_first_match
             [OF wf_run [of silent "[Register ''y'' (Function 0)]"], of "''x''" "Function 0"]
  from A x have 1: "listeners_of (snd (off ?s ''x'' (Function 0))) ''x'' = Some [Function 1]"
    by simp
  from A x y have 2: "listeners_of (snd (off ?s ''x'' (Function 0))) ''y'' = Some [Function 0]"
    by simp
  from B ty have 3: "events (snd (off ?t ''y'' (Function 0))) ''y'' = None"
    by simp
  from C tx have 4: "off ?t ''x'' (Function 0) = (Return This, ?t)"
    by simp
  from x 1 2 3 4 show ?thesis by simp
qed

text \<open>
  C9. \<open>off\<close> never throws and returns the emitter, whatever the value passed as
  listener: it does not check that it is a function. When the value is not in the
  event's sequence, and a value that is not a function never is, the state is unchanged.
\<close>

theorem off_never_throws:
  "fst (off s event listener) = Return This \<and>
   ((\<forall>ls. listeners_of s event = Some ls \<longrightarrow> listener \<notin> set ls) \<longrightarrow>
      off s event listener = (Return This, s)) \<and>
   (wf s \<and> typeof listener \<noteq> ''function'' \<longrightarrow> off s event listener = (Return This, s))"
proof (intro conjI impI)
  show "fst (off s event listener) = Return This" by (rule fst_off)
next
  assume "\<forall>ls. listeners_of s event = Some ls \<longrightarrow> listener \<notin> set ls"
  then show "off s event listener = (Return This, s)"
    by (auto simp: off_def listeners_of_def indexOf_not_member split: option.splits)
next
  assume a: "wf s \<and> typeof listener \<noteq> ''function''"
  then have "\<And>a'. events s event = Some a' \<Longrightarrow> listener \<notin> set (arrays s a')"
    by (auto simp: wf_def)
  then show "off s event listener = (Return This, s)"
    by (auto simp: off_def indexOf_not_member split: option.splits)
qed

theorem off_never_throws_witness:
  "off (run silent [Register ''x'' (Function 0)]) ''x'' (Num 7)
     = (Return This, run silent [Register ''x'' (Function 0)]) \<and>
   off (run silent [Register ''x'' (Function 0)]) ''x'' NaN
     = (Return This, run silent [Register ''x'' (Function 0)]) \<and>
   off (run silent [Register ''x'' (Function 0)]) ''y'' (Function 0)
     = (Return This, run silent [Register ''x'' (Function 0)])"
proof -
  have y: "listeners_of (run silent [Register ''x'' (Function 0)]) ''y'' = None" by code_simp
  show ?thesis
    using off_never_throws [of "run silent [Register ''x'' (Function 0)]" "''x''" "Num 7"]
          off_never_throws [of "run silent [Register ''x'' (Function 0)]" "''x''" NaN]
          off_never_throws [of "run silent [Register ''x'' (Function 0)]" "''y''" "Function 0"]
          wf_run [of silent "[Register ''x'' (Function 0)]"] y
    by simp
qed

text \<open>
  Unregistering one of several listeners of an event removes that entry only: the
  sequence is the old one without it, one shorter and in the old order. In the model a
  later dispatch in which no body of a listener calls \<open>off\<close> for the event invokes
  exactly the remaining listeners, in that order.
\<close>

lemma off_keeps_order:
  assumes "wf s" and "listeners_of s event = Some (map Function fs)"
    and "f \<in> set fs" and "\<exists>g \<in> set fs. g \<noteq> f"
  shows
    "fst (off s event (Function f)) = Return This \<and>
     listeners_of (snd (off s event (Function f))) event =
       Some (map Function (filter (\<lambda>g. g \<noteq> f) fs)) \<and>
     length (filter (\<lambda>g. g \<noteq> f) fs) = length fs - 1 \<and>
     (no_unregister prog args event (filter (\<lambda>g. g \<noteq> f) fs) \<longrightarrow>
        fst (emit prog (snd (off s event (Function f))) event args) = Return (Flag True) \<and>
        calls (snd (emit prog (snd (off s event (Function f))) event args)) =
          calls s @ map (\<lambda>g. (g, args)) (filter (\<lambda>g. g \<noteq> f) fs))"
proof -
  let ?rest = "filter (\<lambda>g. g \<noteq> f) fs"
  let ?s' = "snd (off s event (Function f))"
  have d: "distinct fs" by (rule distinct_functions [OF assms(1,2)])
  have r: "remove1 (Function f) (map Function fs) = map Function ?rest"
    by (simp add: remove1_map_Function distinct_remove1_filter [OF d])
  from assms(4) have ne: "?rest \<noteq> []" by (auto simp: filter_empty_conv)
  have l: "listeners_of ?s' event = Some (map Function ?rest)"
    using ne by (simp add: listeners_of_off [OF assms(1)] assms(2) r)
  have len: "length ?rest = length fs - 1"
    using d assms(3) by (simp add: distinct_remove1_filter [symmetric] length_remove1)
  have w: "wf ?s'" by (rule wf_off [OF assms(1)])
  have "fst (emit prog ?s' event args) = Return (Flag True) \<and>
        calls (snd (emit prog ?s' event args)) = calls s @ map (\<lambda>g. (g, args)) ?rest"
    if q: "no_unregister prog args event ?rest"
    using emit_keeps [OF w l q] by (simp add: calls_off)
  with l len fst_off [of s event "Function f"] show ?thesis by simp
qed

lemma off_keeps_order_example:
  "listeners_of (snd (off (run busy [Register ''x'' (Function 0), Register ''x'' (Function 1),
       Register ''x'' (Function 2), Register ''x'' (Function 3)]) ''x'' (Function 1))) ''x''
     = Some [Function 0, Function 2, Function 3] \<and>
   calls (snd (emit busy (snd (off (run busy [Register ''x'' (Function 0),
       Register ''x'' (Function 1), Register ''x'' (Function 2), Register ''x'' (Function 3)])
       ''x'' (Function 1))) ''x'' [Str ''a'']))
     = [(0, [Str ''a'']), (2, [Str ''a'']), (3, [Str ''a''])]"
proof -
  let ?ops = "[Register ''x'' (Function 0), Register ''x'' (Function 1),
               Register ''x'' (Function 2), Register ''x'' (Function 3)]"
  let ?s = "run busy ?ops"
  have w: "wf ?s" by (rule wf_run)
  have l: "listeners_of ?s ''x'' = Some (map Function [0, 1, 2, 3])" by code_simp
  have m: "(1::nat) \<in> set [0, 1, 2, 3]" by simp
  have o: "\<exists>g \<in> set [0, 1, 2, 3]. g \<noteq> (1::nat)" by simp
  have q: "no_unregister busy [Str ''a''] ''x'' (filter (\<lambda>g. g \<noteq> 1) [0, 1, 2, 3])"
    by (simp add: no_unregister_def busy_def)
  have c: "calls ?s = []" by code_simp
  from off_keeps_order [OF w l m o, of busy "[Str ''a'']"] q
  have "listeners_of (snd (off ?s ''x'' (Function 1))) ''x'' =
          Some (map Function (filter (\<lambda>g. g \<noteq> 1) [0, 1, 2, 3])) \<and>
        calls (snd (emit busy (snd (off ?s ''x'' (Function 1))) ''x'' [Str ''a''])) =
          calls ?s @ map (\<lambda>g. (g, [Str ''a''])) (filter (\<lambda>g. g \<noteq> 1) [0, 1, 2, 3])"
    by blast
  then show ?thesis unfolding c by simp
qed

text \<open>
  C10. Listeners 2, 0 and 1 are registered for \<open>x\<close>, and listener 0 unregisters
  itself when invoked. \<open>off('x', listener 2)\<close> removes that entry only and leaves
  listeners 0 and 1 in their order, but the next \<open>emit('x')\<close> invokes listener 0
  only: the surviving listener 1 is skipped.
\<close>

theorem emit_skips_survivor_after_off:
  "listeners_of (run once_x [Register ''x'' (Function 2), Register ''x'' (Function 0),
       Register ''x'' (Function 1)]) ''x''
     = Some [Function 2, Function 0, Function 1] \<and>
   listeners_of (snd (off (run once_x [Register ''x'' (Function 2), Register ''x'' (Function 0),
       Register ''x'' (Function 1)]) ''x'' (Function 2))) ''x''
     = Some [Function 0, Function 1] \<and>
   fst (emit once_x (snd (off (run once_x [Register ''x'' (Function 2),
       Register ''x'' (Function 0), Register ''x'' (Function 1)]) ''x'' (Function 2))) ''x'' [])
     = Return (Flag True) \<and>
   calls (snd (emit once_x (snd (off (run once_x [Register ''x'' (Function 2),
       Register ''x'' (Function 0), Register ''x'' (Function 1)]) ''x'' (Function 2))) ''x'' []))
     = [(0, [])] \<and>
   calls (snd (emit once_x (snd (off (run once_x [Register ''x'' (Function 2),
       Register ''x'' (Function 0), Register ''x'' (Function 1)]) ''x'' (Function 2))) ''x'' []))
     \<noteq> [(0, []), (1, [])]"
proof -
  let ?s = "run once_x [Register ''x'' (Function 2), Register ''x'' (Function 0),
                        Register ''x'' (Function 1)]"
  have 0: "listeners_of ?s ''x'' = Some [Function 2, Function 0, Function 1]" by code_simp
  have 1: "listeners_of (snd (off ?s ''x'' (Function 2))) ''x'' = Some [Function 0, Function 1]"
    by code_simp
  have 2: "calls (snd (emit once_x (snd (off ?s ''x'' (Function 2))) ''x'' [])) = [(0, [])]"
    by code_simp
  have 3: "calls (snd (emit once_x (snd (off ?s ''x'' (Function 2))) ''x'' []))
     \<noteq> [(0, []), (1, [])]"
    unfolding 2 by simp
  have 4: "fst (emit once_x (snd (off ?s ''x'' (Function 2))) ''x'' []) = Return (Flag True)"
    by code_simp
  show ?thesis by (intro conjI 0 1 2 3 4)
qed

end
